theory Spec2Isabelle
  imports Main
begin

section \<open>Go runtime values used by package limiter\<close>

text \<open>
  The package has two limiters, \<open>TokenBucket\<close> (limiter/token\_bucket.go) and
  \<open>leakyBucket\<close> (the leaky bucket file of the same package). Both guard their counters
  with a mutex, so every method body and every critical section of a background loop is
  one atomic step on the struct. The model passes the struct explicitly and returns the
  updated one.

  Go's \<open>int\<close> is modelled by \<open>int\<close>: the only arithmetic is \<open>tokens++\<close> under the guard
  \<open>tokens < capacity\<close>, \<open>tokens--\<close> under the guard \<open>tokens > 0\<close>, and \<open>len\<close> of a
  slice, so no operation can leave the range of a machine integer.
  \<open>time.Duration\<close> is an integer count of nanoseconds, also \<open>int\<close> here.

  A run-time panic is a value of type \<open>panic\<close>; a function that can panic returns
  \<open>panic + 'a\<close> with \<open>Inl\<close> for the panic.
\<close>

datatype panic =
    CloseOfClosedChannel            \<comment> \<open>\<open>close\<close> of a channel that is already closed\<close>
  | SliceBoundsOutOfRange int       \<comment> \<open>\<open>s[low:]\<close> with \<open>low\<close> outside \<open>0..len(s)\<close>\<close>
  | MakeSliceCapOutOfRange          \<comment> \<open>\<open>make([]T, 0, m)\<close> with \<open>m < 0\<close>\<close>
  | NonPositiveTickerInterval       \<comment> \<open>\<open>time.NewTicker(d)\<close> with \<open>d \<le> 0\<close>\<close>

text \<open>The two error values declared at the top of token\_bucket.go.\<close>

datatype error = ErrContextTimeout | ErrQueueEmpty

text \<open>
  \<open>done\<close> and \<open>stopCh\<close> are of type \<open>chan struct{}\<close>; nothing is ever sent on them,
  they are only closed. A receive from such a channel can proceed exactly when it is closed.
\<close>

datatype chan = ChanOpen | ChanClosed

definition close_chan :: "chan \<Rightarrow> panic + chan" where
  "close_chan c = (case c of ChanOpen \<Rightarrow> Inr ChanClosed | ChanClosed \<Rightarrow> Inl CloseOfClosedChannel)"

text \<open>
  A \<open>time.Ticker\<close>: its period and whether it is still delivering ticks
  (\<open>Stop\<close> turns it off). The arrival of a tick is an event of the environment.
\<close>

record Ticker =
  period :: int
  active :: bool

definition NewTicker :: "int \<Rightarrow> panic + Ticker" where
  "NewTicker d = (if d \<le> 0 then Inl NonPositiveTickerInterval
                  else Inr \<lparr>period = d, active = True\<rparr>)"

definition Ticker_Stop :: "Ticker \<Rightarrow> Ticker" where
  "Ticker_Stop t = t\<lparr>active := False\<rparr>"

text \<open>
  One iteration of a \<open>for { select { case <-ticker.C: ... case <-stop: ... } }\<close> loop is
  determined by the case the \<open>select\<close> takes. When several cases can proceed Go picks one
  of them at random, so the case taken is a parameter of the step.
\<close>

datatype select_case = PickTick | PickDone

text \<open>
  What the loop does after the iteration: go round again, return from the goroutine, or
  (when the case asked for cannot proceed) keep waiting in the \<open>select\<close>.
\<close>

datatype loop = Continue | Return | Waiting

section \<open>TokenBucket (limiter/token\_bucket.go)\<close>

record TokenBucket =
  capacity :: int
  tokens :: int
  fillInterval :: int
  ticker :: Ticker
  doneCh :: chan

definition NewTokenBucket :: "int \<Rightarrow> int \<Rightarrow> panic + TokenBucket" where
  "NewTokenBucket cap interval =
     (case NewTicker interval of
        Inl p \<Rightarrow> Inl p
      | Inr t \<Rightarrow> Inr \<lparr>capacity = cap, tokens = cap, fillInterval = interval,
                       ticker = t, doneCh = ChanOpen\<rparr>)"

text \<open>The critical section of \<open>refill\<close> (between \<open>Lock\<close> and \<open>Unlock\<close>).\<close>

definition refill_tick :: "TokenBucket \<Rightarrow> TokenBucket" where
  "refill_tick tb = (if tokens tb < capacity tb then tb\<lparr>tokens := tokens tb + 1\<rparr> else tb)"

text \<open>
  One iteration of the loop of \<open>refill\<close>. The tick case runs the critical section;
  it does not look at \<open>done\<close>. Whether a tick is there to be taken is up to the
  environment: the ticker delivers ticks until \<open>Stop\<close> turns it off, and \<open>Stop\<close>
  neither drains nor closes the ticker's channel. The \<open>done\<close> case can be taken only
  when \<open>done\<close> is closed.
\<close>

definition refill_iter :: "select_case \<Rightarrow> TokenBucket \<Rightarrow> loop \<times> TokenBucket" where
  "refill_iter c tb =
     (case c of
        PickTick \<Rightarrow> (Continue, refill_tick tb)
      | PickDone \<Rightarrow> (if doneCh tb = ChanClosed then (Return, tb) else (Waiting, tb)))"

text \<open>The goroutine \<open>refill\<close>, run on the sequence of cases its \<open>select\<close> takes.\<close>

fun refill :: "select_case list \<Rightarrow> TokenBucket \<Rightarrow> loop \<times> TokenBucket" where
  "refill [] tb = (Waiting, tb)"
| "refill (c # cs) tb =
     (case refill_iter c tb of
        (Return, tb') \<Rightarrow> (Return, tb')
      | (Continue, tb') \<Rightarrow> refill cs tb'
      | (Waiting, tb') \<Rightarrow> refill cs tb')"

text \<open>
  \<open>Stop\<close> is two statements, and it does not take the mutex: \<open>close(tb.done)\<close>, then
  \<open>tb.ticker.Stop()\<close>.
\<close>

definition Stop_close_done :: "TokenBucket \<Rightarrow> panic + TokenBucket" where
  "Stop_close_done tb =
     (case close_chan (doneCh tb) of Inl p \<Rightarrow> Inl p | Inr ch \<Rightarrow> Inr (tb\<lparr>doneCh := ch\<rparr>))"

definition Stop_ticker_stop :: "TokenBucket \<Rightarrow> TokenBucket" where
  "Stop_ticker_stop tb = tb\<lparr>ticker := Ticker_Stop (ticker tb)\<rparr>"

definition TokenBucket_Stop :: "TokenBucket \<Rightarrow> panic + TokenBucket" where
  "TokenBucket_Stop tb =
     (case Stop_close_done tb of Inl p \<Rightarrow> Inl p | Inr tb' \<Rightarrow> Inr (Stop_ticker_stop tb'))"

definition TryAcquire :: "TokenBucket \<Rightarrow> bool \<times> TokenBucket" where
  "TryAcquire tb = (if tokens tb > 0 then (True, tb\<lparr>tokens := tokens tb - 1\<rparr>) else (False, tb))"

text \<open>
  The atomic steps other goroutines can take on a token bucket: a call of \<open>TryAcquire\<close>,
  one iteration of the \<open>refill\<close> loop, a call of \<open>Stop\<close>.
\<close>

datatype tb_op = OpTryAcquire | OpRefill select_case | OpStop

fun tb_exec :: "tb_op \<Rightarrow> TokenBucket \<Rightarrow> panic + TokenBucket" where
  "tb_exec OpTryAcquire tb = Inr (snd (TryAcquire tb))"
| "tb_exec (OpRefill c) tb = Inr (snd (refill_iter c tb))"
| "tb_exec OpStop tb = TokenBucket_Stop tb"

text \<open>
  \<open>Acquire\<close> blocks in a \<open>select\<close> on \<open>ctx.Done()\<close> and on its own ticker \<open>t\<close>. What
  happens while it waits is a sequence of events: the \<open>select\<close> takes the \<open>ctx.Done()\<close>
  case, the \<open>select\<close> takes the \<open>t.C\<close> case, or another goroutine takes a step on the
  bucket. \<open>Acquire\<close> either returns (\<open>None\<close> is Go's \<open>nil\<close> error) or is still blocked
  when the events end.
\<close>

datatype acq_event = CtxDone | WaitTick | Concurrent tb_op

datatype acq_outcome = Returned "error option" | Blocked

fun Acquire_wait :: "acq_event list \<Rightarrow> TokenBucket \<Rightarrow> panic + (acq_outcome \<times> TokenBucket)" where
  "Acquire_wait [] tb = Inr (Blocked, tb)"
| "Acquire_wait (CtxDone # es) tb = Inr (Returned (Some ErrContextTimeout), tb)"
| "Acquire_wait (WaitTick # es) tb =
     (case TryAcquire tb of
        (True, tb') \<Rightarrow> Inr (Returned None, tb')
      | (False, tb') \<Rightarrow> Acquire_wait es tb')"
| "Acquire_wait (Concurrent op # es) tb =
     (case tb_exec op tb of Inl p \<Rightarrow> Inl p | Inr tb' \<Rightarrow> Acquire_wait es tb')"

definition Acquire :: "acq_event list \<Rightarrow> TokenBucket \<Rightarrow> panic + (acq_outcome \<times> TokenBucket)" where
  "Acquire es tb =
     (case TryAcquire tb of
        (True, tb') \<Rightarrow> Inr (Returned None, tb')
      | (False, tb') \<Rightarrow>
          (case NewTicker (fillInterval tb') of
             Inl p \<Rightarrow> Inl p
           | Inr t \<Rightarrow> Acquire_wait es tb'))"

text \<open>
  A history of a token bucket: calls and loop iterations in the order they take effect.
  A history stops at the first panic, as the program does. Histories do not record
  whether \<open>refill\<close> has already returned, so they allow every interleaving of the
  program and some more.
\<close>

datatype tb_action = Basic tb_op | ActAcquire "acq_event list"

fun tb_step :: "tb_action \<Rightarrow> TokenBucket \<Rightarrow> panic + TokenBucket" where
  "tb_step (Basic op) tb = tb_exec op tb"
| "tb_step (ActAcquire es) tb =
     (case Acquire es tb of Inl p \<Rightarrow> Inl p | Inr (r, tb') \<Rightarrow> Inr tb')"

fun tb_run :: "tb_action list \<Rightarrow> TokenBucket \<Rightarrow> panic + TokenBucket" where
  "tb_run [] tb = Inr tb"
| "tb_run (a # as) tb = (case tb_step a tb of Inl p \<Rightarrow> Inl p | Inr tb' \<Rightarrow> tb_run as tb')"

text \<open>\<open>k\<close> consecutive calls of \<open>TryAcquire\<close>, with their results in order.\<close>

fun TryAcquire_times :: "nat \<Rightarrow> TokenBucket \<Rightarrow> bool list \<times> TokenBucket" where
  "TryAcquire_times 0 tb = ([], tb)"
| "TryAcquire_times (Suc k) tb =
     (case TryAcquire tb of
        (r, tb') \<Rightarrow> (case TryAcquire_times k tb' of (rs, tb'') \<Rightarrow> (r # rs, tb'')))"

section \<open>leakyBucket\<close>

text \<open>
  \<open>queue\<close> is a \<open>[]struct{}\<close>: only its length carries information. Its elements are
  of type \<open>unit\<close>.
\<close>

record leakyBucket =
  capacityL :: int
  leakRate :: int
  queue :: "unit list"
  stopCh :: chan
  stopped :: bool
  leakCount :: int

text \<open>\<open>make([]struct{}, 0, m)\<close>.\<close>

definition make_slice :: "int \<Rightarrow> panic + unit list" where
  "make_slice m = (if m < 0 then Inl MakeSliceCapOutOfRange else Inr [])"

text \<open>The slice expression \<open>s[low:]\<close>.\<close>

definition slice_from :: "unit list \<Rightarrow> int \<Rightarrow> panic + unit list" where
  "slice_from s low =
     (if low < 0 \<or> int (length s) < low then Inl (SliceBoundsOutOfRange low)
      else Inr (drop (nat low) s))"

definition NewLeakyBucket :: "int \<Rightarrow> int \<Rightarrow> int \<Rightarrow> panic + leakyBucket" where
  "NewLeakyBucket cap leakInterval lc =
     (case make_slice cap of
        Inl p \<Rightarrow> Inl p
      | Inr q \<Rightarrow> Inr \<lparr>capacityL = cap, leakRate = leakInterval, queue = q,
                       stopCh = ChanOpen, stopped = False, leakCount = lc\<rparr>)"

text \<open>
  One iteration of the loop of \<open>startLeaking\<close>. The tick case takes the mutex, returns
  if \<open>stopped\<close> is set, and otherwise cuts \<open>removeCount\<close> elements off the front of
  \<open>queue\<close>. The \<open>stopCh\<close> case can be taken only when \<open>stopCh\<close> is closed.
\<close>

definition leak_iter :: "select_case \<Rightarrow> leakyBucket \<Rightarrow> panic + (loop \<times> leakyBucket)" where
  "leak_iter c lb =
     (case c of
        PickTick \<Rightarrow>
          (if stopped lb then Inr (Return, lb)
           else
             (let removeCount = leakCount lb;
                  removeCount = (if removeCount > int (length (queue lb))
                                 then int (length (queue lb)) else removeCount)
              in case slice_from (queue lb) removeCount of
                   Inl p \<Rightarrow> Inl p
                 | Inr q \<Rightarrow> Inr (Continue, lb\<lparr>queue := q\<rparr>)))
      | PickDone \<Rightarrow> (if stopCh lb = ChanClosed then Inr (Return, lb) else Inr (Waiting, lb)))"

fun leak_loop :: "select_case list \<Rightarrow> leakyBucket \<Rightarrow> panic + (loop \<times> leakyBucket)" where
  "leak_loop [] lb = Inr (Waiting, lb)"
| "leak_loop (c # cs) lb =
     (case leak_iter c lb of
        Inl p \<Rightarrow> Inl p
      | Inr (Return, lb') \<Rightarrow> Inr (Return, lb')
      | Inr (Continue, lb') \<Rightarrow> leak_loop cs lb'
      | Inr (Waiting, lb') \<Rightarrow> leak_loop cs lb')"

text \<open>
  The goroutine \<open>startLeaking\<close>, run on the sequence of cases its \<open>select\<close> takes. It
  creates its ticker first.
\<close>

definition startLeaking :: "select_case list \<Rightarrow> leakyBucket \<Rightarrow> panic + (loop \<times> leakyBucket)" where
  "startLeaking cs lb =
     (case NewTicker (leakRate lb) of Inl p \<Rightarrow> Inl p | Inr t \<Rightarrow> leak_loop cs lb)"

definition Allow :: "leakyBucket \<Rightarrow> bool \<times> leakyBucket" where
  "Allow lb =
     (if stopped lb then (False, lb)
      else if int (length (queue lb)) < capacityL lb
           then (True, lb\<lparr>queue := queue lb @ [()]\<rparr>)
           else (False, lb))"

definition leakyBucket_Stop :: "leakyBucket \<Rightarrow> panic + leakyBucket" where
  "leakyBucket_Stop lb =
     (if \<not> stopped lb
      then (case close_chan (stopCh lb) of
              Inl p \<Rightarrow> Inl p
            | Inr ch \<Rightarrow> Inr (lb\<lparr>stopped := True, stopCh := ch\<rparr>))
      else Inr lb)"

definition CurrentSize :: "leakyBucket \<Rightarrow> int" where
  "CurrentSize lb = int (length (queue lb))"

definition Capacity :: "leakyBucket \<Rightarrow> int" where
  "Capacity lb = capacityL lb"

text \<open>The atomic steps on a leaky bucket, and a history of them.\<close>

datatype lb_op = OpAllow | OpLeak select_case | OpStopL

fun lb_exec :: "lb_op \<Rightarrow> leakyBucket \<Rightarrow> panic + leakyBucket" where
  "lb_exec OpAllow lb = Inr (snd (Allow lb))"
| "lb_exec (OpLeak c) lb = (case leak_iter c lb of Inl p \<Rightarrow> Inl p | Inr (l, lb') \<Rightarrow> Inr lb')"
| "lb_exec OpStopL lb = leakyBucket_Stop lb"

fun lb_run :: "lb_op list \<Rightarrow> leakyBucket \<Rightarrow> panic + leakyBucket" where
  "lb_run [] lb = Inr lb"
| "lb_run (a # as) lb = (case lb_exec a lb of Inl p \<Rightarrow> Inl p | Inr lb' \<Rightarrow> lb_run as lb')"

text \<open>\<open>k\<close> consecutive calls of \<open>Allow\<close>, with their results in order.\<close>

fun Allow_times :: "nat \<Rightarrow> leakyBucket \<Rightarrow> bool list \<times> leakyBucket" where
  "Allow_times 0 lb = ([], lb)"
| "Allow_times (Suc k) lb =
     (case Allow lb of
        (r, lb') \<Rightarrow> (case Allow_times k lb' of (rs, lb'') \<Rightarrow> (r # rs, lb'')))"

section \<open>Invariants\<close>

text \<open>The level of a token bucket is \<open>tokens\<close>; it stays between 0 and \<open>capacity\<close>.\<close>

definition tb_inv :: "TokenBucket \<Rightarrow> bool" where
  "tb_inv tb = (0 \<le> tokens tb \<and> tokens tb \<le> capacity tb)"

text \<open>The level of a leaky bucket is \<open>len(queue)\<close>, which \<open>CurrentSize\<close> returns.\<close>

definition lb_inv :: "leakyBucket \<Rightarrow> bool" where
  "lb_inv lb = (0 \<le> CurrentSize lb \<and> CurrentSize lb \<le> capacityL lb)"

text \<open>
  What keeps the steps of a leaky bucket from panicking: the leak count is not negative,
  and \<open>stopCh\<close> is closed exactly when \<open>stopped\<close> is set.
\<close>

definition lb_wf :: "leakyBucket \<Rightarrow> bool" where
  "lb_wf lb = (0 \<le> leakCount lb \<and> (stopCh lb = ChanClosed) = stopped lb)"

section \<open>Auxiliary facts about the token bucket\<close>

lemma TryAcquire_empty: "tokens tb \<le> 0 \<Longrightarrow> TryAcquire tb = (False, tb)"
  by (simp add: TryAcquire_def)

lemma Acquire_wait_cancelled:
  "tokens tb \<le> 0 \<Longrightarrow>
   Acquire_wait (replicate n WaitTick @ CtxDone # es) tb
     = Inr (Returned (Some ErrContextTimeout), tb)"
  by (induction n) (simp_all add: TryAcquire_empty)

lemma Acquire_wait_error:
  "Acquire_wait es tb = Inr (Returned (Some e), tb') \<Longrightarrow> e = ErrContextTimeout"
proof (induction es arbitrary: tb)
  case Nil
  then show ?case by simp
next
  case (Cons ev es)
  show ?case
  proof (cases ev)
    case CtxDone
    with Cons.prems show ?thesis by simp
  next
    case WaitTick
    with Cons.prems Cons.IH show ?thesis
      by (auto simp: TryAcquire_def split: if_splits)
  next
    case (Concurrent op)
    with Cons.prems Cons.IH show ?thesis
      by (auto split: sum.splits)
  qed
qed

lemma Acquire_error:
  "Acquire es tb = Inr (Returned (Some e), tb') \<Longrightarrow> e = ErrContextTimeout"
  by (auto simp: Acquire_def TryAcquire_def split: if_splits sum.splits dest: Acquire_wait_error)

lemma TryAcquire_inv:
  "tb_inv tb \<Longrightarrow> tb_inv (snd (TryAcquire tb)) \<and> capacity (snd (TryAcquire tb)) = capacity tb"
  by (simp add: tb_inv_def TryAcquire_def)

lemma refill_iter_inv:
  "tb_inv tb \<Longrightarrow>
   tb_inv (snd (refill_iter c tb)) \<and> capacity (snd (refill_iter c tb)) = capacity tb"
  by (cases c) (simp_all add: tb_inv_def refill_iter_def refill_tick_def)

lemma TokenBucket_Stop_fields:
  "TokenBucket_Stop tb = Inr tb' \<Longrightarrow>
     tokens tb' = tokens tb \<and> capacity tb' = capacity tb \<and> fillInterval tb' = fillInterval tb
     \<and> doneCh tb' = ChanClosed \<and> doneCh tb = ChanOpen"
  by (cases "doneCh tb")
     (auto simp: TokenBucket_Stop_def Stop_close_done_def Stop_ticker_stop_def close_chan_def)

lemma tb_exec_inv:
  "tb_inv tb \<Longrightarrow> tb_exec op tb = Inr tb' \<Longrightarrow> tb_inv tb' \<and> capacity tb' = capacity tb"
proof (cases op)
  case OpTryAcquire
  assume "tb_inv tb" "tb_exec op tb = Inr tb'"
  with OpTryAcquire TryAcquire_inv [of tb] show ?thesis by auto
next
  case (OpRefill c)
  assume "tb_inv tb" "tb_exec op tb = Inr tb'"
  with OpRefill refill_iter_inv [of tb c] show ?thesis by auto
next
  case OpStop
  assume "tb_inv tb" "tb_exec op tb = Inr tb'"
  with OpStop TokenBucket_Stop_fields [of tb tb'] show ?thesis by (simp add: tb_inv_def)
qed

lemma Acquire_wait_inv:
  "tb_inv tb \<Longrightarrow> Acquire_wait es tb = Inr (r, tb') \<Longrightarrow>
   tb_inv tb' \<and> capacity tb' = capacity tb"
proof (induction es arbitrary: tb)
  case Nil
  then show ?case by simp
next
  case (Cons e es)
  show ?case
  proof (cases e)
    case CtxDone
    with Cons.prems show ?thesis by simp
  next
    case WaitTick
    show ?thesis
    proof (cases "0 < tokens tb")
      case True
      with WaitTick Cons.prems TryAcquire_inv [of tb] show ?thesis
        by (auto simp: TryAcquire_def)
    next
      case False
      then have "TryAcquire tb = (False, tb)" by (simp add: TryAcquire_def)
      with WaitTick Cons.prems have "Acquire_wait es tb = Inr (r, tb')" by simp
      from Cons.IH [OF Cons.prems(1) this] show ?thesis .
    qed
  next
    case (Concurrent op)
    with Cons.prems(2) obtain tb1 where
      s: "tb_exec op tb = Inr tb1" and w: "Acquire_wait es tb1 = Inr (r, tb')"
      by (auto split: sum.splits)
    from tb_exec_inv [OF Cons.prems(1) s] have i: "tb_inv tb1" and c: "capacity tb1 = capacity tb"
      by simp_all
    from Cons.IH [OF i w] c show ?thesis by simp
  qed
qed

lemma Acquire_inv:
  "tb_inv tb \<Longrightarrow> Acquire es tb = Inr (r, tb') \<Longrightarrow> tb_inv tb' \<and> capacity tb' = capacity tb"
proof (cases "0 < tokens tb")
  case True
  assume "tb_inv tb" "Acquire es tb = Inr (r, tb')"
  with True TryAcquire_inv [of tb] show ?thesis by (auto simp: Acquire_def TryAcquire_def)
next
  case False
  assume i: "tb_inv tb" and a: "Acquire es tb = Inr (r, tb')"
  from False have "TryAcquire tb = (False, tb)" by (simp add: TryAcquire_def)
  with a have "Acquire_wait es tb = Inr (r, tb')"
    by (auto simp: Acquire_def split: sum.splits)
  from Acquire_wait_inv [OF i this] show ?thesis .
qed

lemma tb_step_inv:
  "tb_inv tb \<Longrightarrow> tb_step a tb = Inr tb' \<Longrightarrow> tb_inv tb' \<and> capacity tb' = capacity tb"
proof (cases a)
  case (Basic op)
  assume "tb_inv tb" "tb_step a tb = Inr tb'"
  with Basic tb_exec_inv [of tb op tb'] show ?thesis by simp
next
  case (ActAcquire es)
  assume i: "tb_inv tb" and s: "tb_step a tb = Inr tb'"
  with ActAcquire obtain r where "Acquire es tb = Inr (r, tb')"
    by (auto split: sum.splits)
  from Acquire_inv [OF i this] show ?thesis .
qed

lemma tb_run_inv:
  "tb_inv tb \<Longrightarrow> tb_run acts tb = Inr tb' \<Longrightarrow> tb_inv tb' \<and> capacity tb' = capacity tb"
proof (induction acts arbitrary: tb)
  case Nil
  then show ?case by simp
next
  case (Cons a acts)
  from Cons.prems(2) obtain tb1 where s: "tb_step a tb = Inr tb1" and r: "tb_run acts tb1 = Inr tb'"
    by (auto split: sum.splits)
  from tb_step_inv [OF Cons.prems(1) s] have "tb_inv tb1" "capacity tb1 = capacity tb" by simp_all
  with Cons.IH [OF _ r] show ?case by simp
qed

lemma TryAcquire_times_results:
  "0 \<le> tokens tb \<Longrightarrow>
   fst (TryAcquire_times m tb) =
     replicate (min m (nat (tokens tb))) True @ replicate (m - nat (tokens tb)) False"
proof (induction m arbitrary: tb)
  case 0
  then show ?case by simp
next
  case (Suc m)
  show ?case
  proof (cases "0 < tokens tb")
    case True
    then have t: "TryAcquire tb = (True, tb\<lparr>tokens := tokens tb - 1\<rparr>)"
      by (simp add: TryAcquire_def)
    have "0 \<le> tokens (tb\<lparr>tokens := tokens tb - 1\<rparr>)" using True by simp
    from Suc.IH [OF this] have ih:
      "fst (TryAcquire_times m (tb\<lparr>tokens := tokens tb - 1\<rparr>)) =
         replicate (min m (nat (tokens tb - 1))) True @ replicate (m - nat (tokens tb - 1)) False"
      by simp
    obtain k where k: "nat (tokens tb) = Suc k" using True by (cases "nat (tokens tb)") auto
    then have k': "nat (tokens tb - 1) = k" by linarith
    show ?thesis using t ih k k' by (auto split: prod.splits)
  next
    case False
    with Suc.prems have z: "tokens tb = 0" by simp
    then have t: "TryAcquire tb = (False, tb)" by (simp add: TryAcquire_def)
    from Suc.IH [OF Suc.prems] z have
      "fst (TryAcquire_times m tb) = replicate m False" by simp
    then show ?thesis using t z by (auto split: prod.splits)
  qed
qed

section \<open>Auxiliary facts about the leaky bucket\<close>

lemma leakyBucket_Stop_stopped: "leakyBucket_Stop lb = Inr lb' \<Longrightarrow> stopped lb'"
  by (cases "stopCh lb") (auto simp: leakyBucket_Stop_def close_chan_def split: if_splits)

lemma lb_exec_stopped: "stopped lb \<Longrightarrow> lb_exec op lb = Inr lb' \<Longrightarrow> lb' = lb"
proof (cases op)
  case OpAllow
  assume "stopped lb" "lb_exec op lb = Inr lb'"
  with OpAllow show ?thesis by (simp add: Allow_def)
next
  case (OpLeak c)
  assume "stopped lb" "lb_exec op lb = Inr lb'"
  with OpLeak show ?thesis by (cases c) (auto simp: leak_iter_def split: if_splits)
next
  case OpStopL
  assume "stopped lb" "lb_exec op lb = Inr lb'"
  with OpStopL show ?thesis by (simp add: leakyBucket_Stop_def)
qed

lemma lb_run_stopped: "stopped lb \<Longrightarrow> lb_run ops lb = Inr lb' \<Longrightarrow> lb' = lb"
proof (induction ops)
  case Nil
  then show ?case by simp
next
  case (Cons a ops)
  from Cons.prems(2) obtain lb1 where s: "lb_exec a lb = Inr lb1" and r: "lb_run ops lb1 = Inr lb'"
    by (auto split: sum.splits)
  from lb_exec_stopped [OF Cons.prems(1) s] have "lb1 = lb" .
  with r Cons.IH Cons.prems(1) show ?case by simp
qed

text \<open>A second \<open>Stop\<close> of a leaky bucket returns normally and changes nothing.\<close>

lemma leakyBucket_Stop_idempotent:
  "leakyBucket_Stop lb = Inr lb' \<Longrightarrow> leakyBucket_Stop lb' = Inr lb'"
  using leakyBucket_Stop_stopped [of lb lb'] by (simp add: leakyBucket_Stop_def)

text \<open>
  Once \<open>stopped\<close> is set and \<open>stopCh\<close> is closed, every iteration of the leaking loop
  returns and leaves the bucket as it is, whichever case the \<open>select\<close> takes.
\<close>

lemma leak_iter_after_Stop:
  "stopped lb \<Longrightarrow> stopCh lb = ChanClosed \<Longrightarrow> leak_iter c lb = Inr (Return, lb)"
  by (cases c) (simp_all add: leak_iter_def)

lemma lb_exec_inv:
  assumes "lb_inv lb" "lb_wf lb"
  shows "\<exists>lb'. lb_exec op lb = Inr lb' \<and> lb_inv lb' \<and> lb_wf lb' \<and> capacityL lb' = capacityL lb"
proof (cases op)
  case OpAllow
  with assms show ?thesis
    by (simp add: Allow_def lb_inv_def lb_wf_def CurrentSize_def)
next
  case (OpLeak c)
  with assms show ?thesis
    by (cases c)
       (auto simp: leak_iter_def slice_from_def lb_inv_def lb_wf_def CurrentSize_def Let_def)
next
  case OpStopL
  with assms show ?thesis
    by (cases "stopCh lb")
       (auto simp: leakyBucket_Stop_def close_chan_def lb_inv_def lb_wf_def CurrentSize_def)
qed

lemma lb_run_inv:
  "lb_inv lb \<Longrightarrow> lb_wf lb \<Longrightarrow>
   \<exists>lb'. lb_run ops lb = Inr lb' \<and> lb_inv lb' \<and> lb_wf lb' \<and> capacityL lb' = capacityL lb"
proof (induction ops arbitrary: lb)
  case Nil
  then show ?case by simp
next
  case (Cons a ops)
  from lb_exec_inv [OF Cons.prems, of a] obtain lb1 where
    s: "lb_exec a lb = Inr lb1" and i: "lb_inv lb1" "lb_wf lb1" and c: "capacityL lb1 = capacityL lb"
    by blast
  from Cons.IH [OF i] s c show ?case by auto
qed

lemma Allow_times_results:
  "\<not> stopped lb \<Longrightarrow> CurrentSize lb \<le> capacityL lb \<Longrightarrow>
   fst (Allow_times m lb) =
     replicate (min m (nat (capacityL lb - CurrentSize lb))) True
       @ replicate (m - nat (capacityL lb - CurrentSize lb)) False"
proof (induction m arbitrary: lb)
  case 0
  then show ?case by simp
next
  case (Suc m)
  show ?case
  proof (cases "CurrentSize lb < capacityL lb")
    case True
    let ?lb = "lb\<lparr>queue := queue lb @ [()]\<rparr>"
    have t: "Allow lb = (True, ?lb)"
      using True Suc.prems by (simp add: Allow_def CurrentSize_def)
    have p: "\<not> stopped ?lb" "CurrentSize ?lb \<le> capacityL ?lb" "CurrentSize ?lb = CurrentSize lb + 1"
      "capacityL ?lb = capacityL lb"
      using True Suc.prems by (simp_all add: CurrentSize_def)
    from Suc.IH [OF p(1) p(2)] have ih:
      "fst (Allow_times m ?lb) =
         replicate (min m (nat (capacityL lb - CurrentSize lb - 1))) True
           @ replicate (m - nat (capacityL lb - CurrentSize lb - 1)) False"
      unfolding p(3) p(4) by (simp add: algebra_simps)
    obtain k where k: "nat (capacityL lb - CurrentSize lb) = Suc k"
      using True by (cases "nat (capacityL lb - CurrentSize lb)") auto
    then have k': "nat (capacityL lb - CurrentSize lb - 1) = k" by linarith
    show ?thesis using t ih k k' by (auto split: prod.splits)
  next
    case False
    with Suc.prems have z: "capacityL lb - CurrentSize lb = 0" by simp
    have t: "Allow lb = (False, lb)" using False by (simp add: Allow_def CurrentSize_def)
    from Suc.IH [OF Suc.prems] z have
      "fst (Allow_times m lb) = replicate m False" by simp
    then show ?thesis using t z by (auto split: prod.splits)
  qed
qed

lemma leak_loop_after_Stop:
  "stopped lb \<Longrightarrow> stopCh lb = ChanClosed \<Longrightarrow> leak_loop (c # cs) lb = Inr (Return, lb)"
  by (simp add: leak_iter_after_Stop)

text \<open>
  After \<open>Stop\<close> of a leaky bucket, \<open>Allow\<close> returns false at every later call,
  whatever the bucket holds and whatever happened in between.
\<close>

lemma Allow_after_Stop:
  "leakyBucket_Stop lb = Inr lb1 \<Longrightarrow> lb_run ops lb1 = Inr lb2 \<Longrightarrow> Allow lb2 = (False, lb2)"
proof -
  assume s: "leakyBucket_Stop lb = Inr lb1" and r: "lb_run ops lb1 = Inr lb2"
  from leakyBucket_Stop_stopped [OF s] have st: "stopped lb1" .
  from lb_run_stopped [OF st r] st show "Allow lb2 = (False, lb2)"
    by (simp add: Allow_def)
qed

section \<open>Use after Stop\<close>

text \<open>
  Claim C1: after \<open>Stop\<close> every non-blocking attempt fails, for both buckets and
  whatever the bucket held, and \<open>Acquire\<close> does not succeed. \<open>leakyBucket.Allow\<close>
  tests \<open>stopped\<close> first and rejects (lemma \<open>Allow_after_Stop\<close>).
  \<open>TokenBucket.TryAcquire\<close> tests only \<open>tokens > 0\<close> and never looks at \<open>done\<close>:
  a bucket made with capacity 1 and stopped while it holds its token still hands that
  token out, to \<open>TryAcquire\<close> and to \<open>Acquire\<close> alike.
\<close>

theorem C1_TryAcquire_after_Stop_succeeds:
  "NewTokenBucket 1 100
     = Inr \<lparr>capacity = 1, tokens = 1, fillInterval = 100,
            ticker = \<lparr>period = 100, active = True\<rparr>, doneCh = ChanOpen\<rparr>
   \<and> TokenBucket_Stop \<lparr>capacity = 1, tokens = 1, fillInterval = 100,
            ticker = \<lparr>period = 100, active = True\<rparr>, doneCh = ChanOpen\<rparr>
     = Inr \<lparr>capacity = 1, tokens = 1, fillInterval = 100,
            ticker = \<lparr>period = 100, active = False\<rparr>, doneCh = ChanClosed\<rparr>
   \<and> TryAcquire \<lparr>capacity = 1, tokens = 1, fillInterval = 100,
            ticker = \<lparr>period = 100, active = False\<rparr>, doneCh = ChanClosed\<rparr>
     = (True, \<lparr>capacity = 1, tokens = 0, fillInterval = 100,
            ticker = \<lparr>period = 100, active = False\<rparr>, doneCh = ChanClosed\<rparr>)
   \<and> Acquire [] \<lparr>capacity = 1, tokens = 1, fillInterval = 100,
            ticker = \<lparr>period = 100, active = False\<rparr>, doneCh = ChanClosed\<rparr>
     = Inr (Returned None, \<lparr>capacity = 1, tokens = 0, fillInterval = 100,
            ticker = \<lparr>period = 100, active = False\<rparr>, doneCh = ChanClosed\<rparr>)"
  by (simp add: NewTokenBucket_def NewTicker_def TokenBucket_Stop_def Stop_close_done_def
        Stop_ticker_stop_def Ticker_Stop_def close_chan_def TryAcquire_def Acquire_def)

section \<open>Calling Stop twice\<close>

text \<open>
  Claim C2: a second \<open>Stop\<close> is a harmless no-op for both buckets. \<open>leakyBucket.Stop\<close>
  closes \<open>stopCh\<close> only when \<open>stopped\<close> is not yet set (lemma
  \<open>leakyBucket_Stop_idempotent\<close>). \<open>TokenBucket.Stop\<close> closes \<open>done\<close> without any
  check, so the second call on a fresh bucket of capacity 1 panics with
  ``close of closed channel''.
\<close>

theorem C2_TokenBucket_Stop_twice_panics:
  "NewTokenBucket 1 100
     = Inr \<lparr>capacity = 1, tokens = 1, fillInterval = 100,
            ticker = \<lparr>period = 100, active = True\<rparr>, doneCh = ChanOpen\<rparr>
   \<and> TokenBucket_Stop \<lparr>capacity = 1, tokens = 1, fillInterval = 100,
            ticker = \<lparr>period = 100, active = True\<rparr>, doneCh = ChanOpen\<rparr>
     = Inr \<lparr>capacity = 1, tokens = 1, fillInterval = 100,
            ticker = \<lparr>period = 100, active = False\<rparr>, doneCh = ChanClosed\<rparr>
   \<and> TokenBucket_Stop \<lparr>capacity = 1, tokens = 1, fillInterval = 100,
            ticker = \<lparr>period = 100, active = False\<rparr>, doneCh = ChanClosed\<rparr>
     = Inl CloseOfClosedChannel
   \<and> tb_run [Basic OpStop, Basic OpStop]
        \<lparr>capacity = 1, tokens = 1, fillInterval = 100,
         ticker = \<lparr>period = 100, active = True\<rparr>, doneCh = ChanOpen\<rparr>
     = Inl CloseOfClosedChannel"
  by (simp add: NewTokenBucket_def NewTicker_def TokenBucket_Stop_def Stop_close_done_def
        Stop_ticker_stop_def Ticker_Stop_def close_chan_def)

section \<open>The capacity invariant\<close>

text \<open>
  Claim C3: for a bucket constructed with capacity \<open>c \<ge> 0\<close> (and, for the leaky bucket,
  a leak count of at least 1), every state reached by any history of \<open>TryAcquire\<close>,
  \<open>Acquire\<close>, \<open>Allow\<close>, iterations of the background loops and \<open>Stop\<close> has
  \<open>0 \<le> level \<le> capacity\<close>, and the capacity is still \<open>c\<close>. A history of the token
  bucket can end in a panic (\<open>Stop\<close> twice); the states before it are the states of its
  prefixes. A history of the leaky bucket never panics.
\<close>

theorem C3_capacity_invariant:
  assumes "0 \<le> c"
  shows "(NewTokenBucket c interval = Inr tb0 \<longrightarrow> tb_run acts tb0 = Inr tb \<longrightarrow>
            0 \<le> tokens tb \<and> tokens tb \<le> capacity tb \<and> capacity tb = c)
       \<and> (1 \<le> lc \<longrightarrow> NewLeakyBucket c leakInterval lc = Inr lb0 \<longrightarrow>
            (\<exists>lb. lb_run ops lb0 = Inr lb \<and>
                  0 \<le> CurrentSize lb \<and> CurrentSize lb \<le> capacityL lb \<and> capacityL lb = c))"
proof (rule conjI; intro impI)
  assume n: "NewTokenBucket c interval = Inr tb0" and r: "tb_run acts tb0 = Inr tb"
  from n assms have "tb_inv tb0" "capacity tb0 = c"
    by (auto simp: NewTokenBucket_def tb_inv_def split: sum.splits)
  with tb_run_inv [OF _ r] show "0 \<le> tokens tb \<and> tokens tb \<le> capacity tb \<and> capacity tb = c"
    by (simp add: tb_inv_def)
next
  assume l: "1 \<le> lc" and n: "NewLeakyBucket c leakInterval lc = Inr lb0"
  from n l assms have "lb_inv lb0" "lb_wf lb0" "capacityL lb0 = c"
    by (auto simp: NewLeakyBucket_def make_slice_def lb_inv_def lb_wf_def CurrentSize_def
             split: sum.splits if_splits)
  with lb_run_inv [of lb0 ops]
  show "\<exists>lb. lb_run ops lb0 = Inr lb \<and>
             0 \<le> CurrentSize lb \<and> CurrentSize lb \<le> capacityL lb \<and> capacityL lb = c"
    by (auto simp: lb_inv_def)
qed

text \<open>
  The invariant at a token bucket of capacity 2 and a leaky bucket of capacity 2, each run
  through a history that takes, refills or drains, and stops.
\<close>

theorem C3_capacity_invariant_witness:
  "NewTokenBucket 2 1 = Inr \<lparr>capacity = 2, tokens = 2, fillInterval = 1,
       ticker = \<lparr>period = 1, active = True\<rparr>, doneCh = ChanOpen\<rparr>
   \<and> tb_run [Basic OpTryAcquire, Basic (OpRefill PickTick), Basic (OpRefill PickTick),
           ActAcquire [WaitTick, CtxDone], Basic OpStop]
         \<lparr>capacity = 2, tokens = 2, fillInterval = 1,
          ticker = \<lparr>period = 1, active = True\<rparr>, doneCh = ChanOpen\<rparr>
       = Inr \<lparr>capacity = 2, tokens = 1, fillInterval = 1,
              ticker = \<lparr>period = 1, active = False\<rparr>, doneCh = ChanClosed\<rparr>
   \<and> (0::int) \<le> 1 \<and> (1::int) \<le> 2
   \<and> NewLeakyBucket 2 1 1 = Inr \<lparr>capacityL = 2, leakRate = 1, queue = [], stopCh = ChanOpen,
         stopped = False, leakCount = 1\<rparr>
   \<and> (\<exists>lb. lb_run [OpAllow, OpAllow, OpAllow, OpLeak PickTick, OpStopL, OpLeak PickTick]
              \<lparr>capacityL = 2, leakRate = 1, queue = [], stopCh = ChanOpen, stopped = False,
               leakCount = 1\<rparr> = Inr lb
          \<and> 0 \<le> CurrentSize lb \<and> CurrentSize lb \<le> capacityL lb \<and> capacityL lb = 2)"
proof -
  let ?TA = "\<lparr>capacity = 2, tokens = 2, fillInterval = 1,
       ticker = \<lparr>period = 1, active = True\<rparr>, doneCh = ChanOpen\<rparr>"
  let ?T = "\<lparr>capacity = 2, tokens = 1, fillInterval = 1,
              ticker = \<lparr>period = 1, active = False\<rparr>, doneCh = ChanClosed\<rparr>"
  let ?LA = "\<lparr>capacityL = 2, leakRate = 1, queue = [], stopCh = ChanOpen,
         stopped = False, leakCount = 1\<rparr>"
  let ?acts = "[Basic OpTryAcquire, Basic (OpRefill PickTick), Basic (OpRefill PickTick),
           ActAcquire [WaitTick, CtxDone], Basic OpStop]"
  let ?ops = "[OpAllow, OpAllow, OpAllow, OpLeak PickTick, OpStopL, OpLeak PickTick]"
  have t: "NewTokenBucket 2 1 = Inr ?TA"
    by (simp add: NewTokenBucket_def NewTicker_def)
  have l: "NewLeakyBucket 2 1 1 = Inr ?LA"
    by (simp add: NewLeakyBucket_def make_slice_def)
  have r: "tb_run ?acts ?TA = Inr ?T"
    by (simp add: TryAcquire_def refill_iter_def refill_tick_def Acquire_def TokenBucket_Stop_def
          Stop_close_done_def Stop_ticker_stop_def close_chan_def Ticker_Stop_def)
  have z: "(0::int) \<le> 2" "(1::int) \<le> 1" by simp_all
  note c = C3_capacity_invariant [OF z(1), where interval = 1 and ?tb0.0 = ?TA and acts = ?acts
      and tb = ?T and lc = 1 and leakInterval = 1 and ?lb0.0 = ?LA and ops = ?ops]
  note a = c [THEN conjunct1, rule_format, OF t r]
  note b = c [THEN conjunct2, rule_format, OF z(2) l]
  from a b t r l show ?thesis by simp
qed

section \<open>Ticks after the closing transition\<close>

text \<open>
  Claim C4: once the closing transition of \<open>Stop\<close> is visible, no iteration of the
  background loop changes the level, and the loop ends. For the leaky bucket this is
  lemma \<open>leak_iter_after_Stop\<close>: the tick case checks \<open>stopped\<close> under the mutex.
  The loop of \<open>refill\<close> has no such check. Take a token bucket of capacity 1 that holds
  nothing; \<open>Stop\<close> has executed \<open>close(tb.done)\<close>, the ticker is still active and
  delivers a tick, and the \<open>select\<close>, with both cases able to proceed, takes the tick:
  the level goes from 0 to 1. The loop does end when the \<open>done\<close> case is taken next.
\<close>

theorem C4_refill_after_close_mutates:
  "Stop_close_done \<lparr>capacity = 1, tokens = 0, fillInterval = 100,
            ticker = \<lparr>period = 100, active = True\<rparr>, doneCh = ChanOpen\<rparr>
     = Inr \<lparr>capacity = 1, tokens = 0, fillInterval = 100,
            ticker = \<lparr>period = 100, active = True\<rparr>, doneCh = ChanClosed\<rparr>
   \<and> refill_iter PickTick \<lparr>capacity = 1, tokens = 0, fillInterval = 100,
            ticker = \<lparr>period = 100, active = True\<rparr>, doneCh = ChanClosed\<rparr>
     = (Continue, \<lparr>capacity = 1, tokens = 1, fillInterval = 100,
            ticker = \<lparr>period = 100, active = True\<rparr>, doneCh = ChanClosed\<rparr>)
   \<and> refill [PickTick, PickDone] \<lparr>capacity = 1, tokens = 0, fillInterval = 100,
            ticker = \<lparr>period = 100, active = True\<rparr>, doneCh = ChanClosed\<rparr>
     = (Return, \<lparr>capacity = 1, tokens = 1, fillInterval = 100,
            ticker = \<lparr>period = 100, active = True\<rparr>, doneCh = ChanClosed\<rparr>)"
  by (simp add: Stop_close_done_def close_chan_def refill_iter_def refill_tick_def)

section \<open>The refill step and the drain step\<close>

text \<open>
  Claim C5: on a token bucket with \<open>0 \<le> level \<le> capacity\<close>, one tick of the refill
  loop gives \<open>level' = min (level + 1) capacity\<close>, that is \<open>level + 1\<close> when
  \<open>level < capacity\<close> and \<open>level\<close> otherwise, and changes no other field.
\<close>

theorem C5_refill_step:
  assumes "0 \<le> tokens tb" and "tokens tb \<le> capacity tb"
  shows "refill_iter PickTick tb = (Continue, tb\<lparr>tokens := min (tokens tb + 1) (capacity tb)\<rparr>)
       \<and> min (tokens tb + 1) (capacity tb)
           = (if tokens tb < capacity tb then tokens tb + 1 else tokens tb)"
  using assms by (simp add: refill_iter_def refill_tick_def min_def)

text \<open>The refill step at a bucket of capacity 2 that holds one token.\<close>

theorem C5_refill_step_witness:
  "(0::int) \<le> 1 \<and> (1::int) \<le> 2
   \<and> refill_iter PickTick \<lparr>capacity = 2, tokens = 1, fillInterval = 100,
        ticker = \<lparr>period = 100, active = True\<rparr>, doneCh = ChanOpen\<rparr>
       = (Continue, \<lparr>capacity = 2, tokens = 2, fillInterval = 100,
        ticker = \<lparr>period = 100, active = True\<rparr>, doneCh = ChanOpen\<rparr>)"
  using C5_refill_step [of "\<lparr>capacity = 2, tokens = 1, fillInterval = 100,
        ticker = \<lparr>period = 100, active = True\<rparr>, doneCh = ChanOpen\<rparr>"]
  by simp

text \<open>
  Claim C6: on a leaky bucket that is not stopped, with \<open>0 \<le> level \<le> capacity\<close> and
  \<open>leakCount = step \<ge> 1\<close>, one tick of the leaking loop removes \<open>min step level\<close>
  units: \<open>level' = level - min step level = max (level - step) 0\<close>, which is not
  negative. Only \<open>queue\<close> changes.
\<close>

theorem C6_drain_step:
  assumes "0 \<le> CurrentSize lb" and "CurrentSize lb \<le> capacityL lb"
      and "1 \<le> leakCount lb" and "\<not> stopped lb"
  shows "\<exists>lb'. leak_iter PickTick lb = Inr (Continue, lb')
           \<and> lb' = lb\<lparr>queue := drop (nat (min (leakCount lb) (CurrentSize lb))) (queue lb)\<rparr>
           \<and> CurrentSize lb' = CurrentSize lb - min (leakCount lb) (CurrentSize lb)
           \<and> CurrentSize lb' = max (CurrentSize lb - leakCount lb) 0
           \<and> 0 \<le> CurrentSize lb'"
  using assms
  by (auto simp: leak_iter_def slice_from_def CurrentSize_def Let_def min_def max_def)

text \<open>The drain step at a full bucket of capacity 5 that leaks 2 units a tick.\<close>

theorem C6_drain_step_witness:
  "leak_iter PickTick \<lparr>capacityL = 5, leakRate = 100, queue = [(), (), (), (), ()],
        stopCh = ChanOpen, stopped = False, leakCount = 2\<rparr>
     = Inr (Continue, \<lparr>capacityL = 5, leakRate = 100, queue = [(), (), ()],
        stopCh = ChanOpen, stopped = False, leakCount = 2\<rparr>)"
  using C6_drain_step [of "\<lparr>capacityL = 5, leakRate = 100, queue = [(), (), (), (), ()],
        stopCh = ChanOpen, stopped = False, leakCount = 2\<rparr>"]
  by (simp add: CurrentSize_def)

section \<open>Exhaustion\<close>

text \<open>
  Claim C7: a freshly constructed bucket of capacity \<open>n \<ge> 0\<close>, with no tick in between,
  answers \<open>n + 1\<close> consecutive calls of \<open>TryAcquire\<close> with \<open>n\<close> times true and then
  false; the same holds for \<open>n + 1\<close> consecutive calls of \<open>Allow\<close> on a fresh leaky
  bucket.
\<close>

theorem C7_exhaustion_after_capacity:
  assumes "0 \<le> n"
  shows "(0 < interval \<longrightarrow>
            (\<exists>tb. NewTokenBucket n interval = Inr tb
                \<and> fst (TryAcquire_times (Suc (nat n)) tb) = replicate (nat n) True @ [False]))
       \<and> (\<exists>lb. NewLeakyBucket n leakInterval lc = Inr lb
                \<and> fst (Allow_times (Suc (nat n)) lb) = replicate (nat n) True @ [False])"
proof (rule conjI; (intro impI)?)
  let ?tb = "\<lparr>capacity = n, tokens = n, fillInterval = interval,
              ticker = \<lparr>period = interval, active = True\<rparr>, doneCh = ChanOpen\<rparr>"
  assume "0 < interval"
  then have c: "NewTokenBucket n interval = Inr ?tb"
    by (simp add: NewTokenBucket_def NewTicker_def)
  from assms TryAcquire_times_results [of ?tb "Suc (nat n)"]
  have "fst (TryAcquire_times (Suc (nat n)) ?tb) = replicate (nat n) True @ [False]"
    by (simp add: Suc_diff_le)
  with c show "\<exists>tb. NewTokenBucket n interval = Inr tb
                \<and> fst (TryAcquire_times (Suc (nat n)) tb) = replicate (nat n) True @ [False]"
    by blast
next
  let ?lb = "\<lparr>capacityL = n, leakRate = leakInterval, queue = [],
              stopCh = ChanOpen, stopped = False, leakCount = lc\<rparr>"
  from assms have c: "NewLeakyBucket n leakInterval lc = Inr ?lb"
    by (simp add: NewLeakyBucket_def make_slice_def)
  from assms Allow_times_results [of ?lb "Suc (nat n)"]
  have "fst (Allow_times (Suc (nat n)) ?lb) = replicate (nat n) True @ [False]"
    by (simp add: CurrentSize_def Suc_diff_le)
  with c show "\<exists>lb. NewLeakyBucket n leakInterval lc = Inr lb
                \<and> fst (Allow_times (Suc (nat n)) lb) = replicate (nat n) True @ [False]"
    by blast
qed

text \<open>Exhaustion at capacity 2: true, true, false.\<close>

theorem C7_exhaustion_after_capacity_witness:
  "(0::int) \<le> 2 \<and> (0::int) < 100
   \<and> (\<exists>tb. NewTokenBucket 2 100 = Inr tb
         \<and> fst (TryAcquire_times 3 tb) = [True, True, False])
   \<and> (\<exists>lb. NewLeakyBucket 2 100 1 = Inr lb
         \<and> fst (Allow_times 3 lb) = [True, True, False])"
proof -
  have z: "(0::int) \<le> 2" by simp
  have n: "Suc (nat 2) = 3" "replicate (nat 2) True @ [False] = [True, True, False]"
    by (simp_all add: numeral_2_eq_2)
  from C7_exhaustion_after_capacity [OF z, of 100 100 1] show ?thesis
    unfolding n by simp
qed

section \<open>Acquire and cancellation\<close>

text \<open>
  Claim C8: \<open>Acquire\<close> on an empty token bucket (level 0) with a context that is
  already cancelled returns \<open>ErrContextTimeout\<close> and leaves the level at 0: it neither
  succeeds nor stays blocked. This holds however many times the \<open>select\<close> takes a tick of
  the waiting ticker before it takes \<open>ctx.Done()\<close>. \<open>ErrContextTimeout\<close> is the only
  error \<open>Acquire\<close> returns, on any bucket and any sequence of events.
\<close>

theorem C8_acquire_cancelled:
  assumes "tokens tb = 0" and "0 < fillInterval tb"
  shows "Acquire (replicate n WaitTick @ CtxDone # es) tb
           = Inr (Returned (Some ErrContextTimeout), tb)
       \<and> (\<forall>es' tb' e tb''. Acquire es' tb' = Inr (Returned (Some e), tb'') \<longrightarrow> e = ErrContextTimeout)"
proof (rule conjI)
  from assms(2) have "NewTicker (fillInterval tb) = Inr \<lparr>period = fillInterval tb, active = True\<rparr>"
    by (simp add: NewTicker_def)
  with assms(1) show "Acquire (replicate n WaitTick @ CtxDone # es) tb
           = Inr (Returned (Some ErrContextTimeout), tb)"
    by (simp add: Acquire_def TryAcquire_empty Acquire_wait_cancelled)
next
  show "\<forall>es' tb' e tb''. Acquire es' tb' = Inr (Returned (Some e), tb'') \<longrightarrow> e = ErrContextTimeout"
    using Acquire_error by blast
qed

text \<open>
  The claim at an empty bucket of capacity 1 with a fill interval of 500, when the first
  \<open>select\<close> takes \<open>ctx.Done()\<close>.
\<close>

theorem C8_acquire_cancelled_witness:
  "tokens \<lparr>capacity = 1, tokens = 0, fillInterval = 500,
           ticker = \<lparr>period = 500, active = True\<rparr>, doneCh = ChanOpen\<rparr> = 0
   \<and> 0 < fillInterval \<lparr>capacity = 1, tokens = 0, fillInterval = 500,
           ticker = \<lparr>period = 500, active = True\<rparr>, doneCh = ChanOpen\<rparr>
   \<and> Acquire [CtxDone] \<lparr>capacity = 1, tokens = 0, fillInterval = 500,
           ticker = \<lparr>period = 500, active = True\<rparr>, doneCh = ChanOpen\<rparr>
       = Inr (Returned (Some ErrContextTimeout),
              \<lparr>capacity = 1, tokens = 0, fillInterval = 500,
               ticker = \<lparr>period = 500, active = True\<rparr>, doneCh = ChanOpen\<rparr>)"
proof -
  let ?TA = "\<lparr>capacity = 1, tokens = 0, fillInterval = 500,
           ticker = \<lparr>period = 500, active = True\<rparr>, doneCh = ChanOpen\<rparr>"
  have h: "tokens ?TA = 0" "0 < fillInterval ?TA" by simp_all
  from C8_acquire_cancelled [OF h, where n = 0 and es = "[]", THEN conjunct1] h
  show ?thesis by simp
qed

section \<open>Initial states\<close>

text \<open>
  Claim C9, as stated: for every capacity and every interval the constructors yield a
  bucket. \<open>NewTokenBucket\<close> calls \<open>time.NewTicker\<close>, which panics on an interval that is
  not positive, and \<open>NewLeakyBucket\<close> calls \<open>make\<close> with the capacity as the capacity of
  the slice, which panics on a negative one.
\<close>

theorem C9_counterexample:
  "NewTokenBucket 3 0 = Inl NonPositiveTickerInterval
   \<and> NewLeakyBucket (- 1) 100 1 = Inl MakeSliceCapOutOfRange"
  by (simp add: NewTokenBucket_def NewTicker_def NewLeakyBucket_def make_slice_def)

text \<open>
  Claim C9, amended: for every capacity \<open>c\<close> and every interval greater than 0,
  \<open>NewTokenBucket\<close> yields a bucket whose level is \<open>c\<close>; for every capacity \<open>c \<ge> 0\<close>,
  every interval and every leak count, \<open>NewLeakyBucket\<close> yields a bucket whose level is
  0, so \<open>CurrentSize\<close> returns 0. On an interval \<open>\<le> 0\<close> \<open>NewTokenBucket\<close> panics, and
  on a capacity \<open>< 0\<close> \<open>NewLeakyBucket\<close> panics.
\<close>

theorem C9_initial_states:
  "(0 < interval \<longrightarrow>
      (\<exists>tb. NewTokenBucket c interval = Inr tb \<and> tokens tb = c \<and> capacity tb = c))
   \<and> (0 \<le> c \<longrightarrow>
      (\<exists>lb. NewLeakyBucket c leakInterval lc = Inr lb \<and> queue lb = [] \<and> CurrentSize lb = 0
            \<and> capacityL lb = c))
   \<and> (interval \<le> 0 \<longrightarrow> NewTokenBucket c interval = Inl NonPositiveTickerInterval)
   \<and> (c < 0 \<longrightarrow> NewLeakyBucket c leakInterval lc = Inl MakeSliceCapOutOfRange)"
  by (simp add: NewTokenBucket_def NewTicker_def NewLeakyBucket_def make_slice_def CurrentSize_def)

text \<open>The amended claim at capacity 3 and interval 100.\<close>

theorem C9_initial_states_witness:
  "(0::int) < 100 \<and> (0::int) \<le> 3
   \<and> (\<exists>tb. NewTokenBucket 3 100 = Inr tb \<and> tokens tb = 3 \<and> capacity tb = 3)
   \<and> (\<exists>lb. NewLeakyBucket 3 100 1 = Inr lb \<and> queue lb = [] \<and> CurrentSize lb = 0
            \<and> capacityL lb = 3)"
  using C9_initial_states [of 100 3 100 1] by simp

section \<open>A negative leak count\<close>

text \<open>
  Claim C10: \<open>NewLeakyBucket\<close> stores the leak count as it is given, without a check.
  With a negative leak count the first tick of the leaking loop on a bucket that is not
  stopped evaluates \<open>queue[removeCount:]\<close> with \<open>removeCount = leakCount < 0\<close> and
  panics; with a leak count \<open>\<ge> 0\<close> no iteration panics.
\<close>

theorem C10_negative_leakCount:
  "(0 \<le> c \<longrightarrow> (\<exists>lb. NewLeakyBucket c leakInterval lc = Inr lb \<and> leakCount lb = lc))
   \<and> (0 \<le> c \<longrightarrow> lc < 0 \<longrightarrow>
        (\<exists>lb. NewLeakyBucket c leakInterval lc = Inr lb
              \<and> leak_iter PickTick lb = Inl (SliceBoundsOutOfRange lc)
              \<and> (0 < leakInterval \<longrightarrow>
                   startLeaking (PickTick # cs) lb = Inl (SliceBoundsOutOfRange lc))))
   \<and> (\<not> stopped lb' \<longrightarrow> leakCount lb' < 0 \<longrightarrow>
        leak_iter PickTick lb' = Inl (SliceBoundsOutOfRange (leakCount lb')))
   \<and> (0 \<le> leakCount lb' \<longrightarrow> (\<exists>r. leak_iter sc lb' = Inr r))"
proof (intro conjI impI)
  assume "0 \<le> c"
  then show "\<exists>lb. NewLeakyBucket c leakInterval lc = Inr lb \<and> leakCount lb = lc"
    by (simp add: NewLeakyBucket_def make_slice_def)
next
  assume "0 \<le> c" "lc < 0"
  then show "\<exists>lb. NewLeakyBucket c leakInterval lc = Inr lb
              \<and> leak_iter PickTick lb = Inl (SliceBoundsOutOfRange lc)
              \<and> (0 < leakInterval \<longrightarrow>
                   startLeaking (PickTick # cs) lb = Inl (SliceBoundsOutOfRange lc))"
    by (simp add: NewLeakyBucket_def make_slice_def leak_iter_def slice_from_def
          startLeaking_def NewTicker_def)
next
  assume "\<not> stopped lb'" "leakCount lb' < 0"
  then show "leak_iter PickTick lb' = Inl (SliceBoundsOutOfRange (leakCount lb'))"
    by (simp add: leak_iter_def slice_from_def)
next
  assume "0 \<le> leakCount lb'"
  then show "\<exists>r. leak_iter sc lb' = Inr r"
    by (cases sc) (simp_all add: leak_iter_def slice_from_def Let_def)
qed

text \<open>The claim at capacity 3 and leak count \<open>-1\<close>.\<close>

theorem C10_negative_leakCount_witness:
  "(0::int) \<le> 3 \<and> (- 1::int) < 0
   \<and> (\<exists>lb. NewLeakyBucket 3 100 (- 1) = Inr lb
         \<and> leak_iter PickTick lb = Inl (SliceBoundsOutOfRange (- 1))
         \<and> startLeaking [PickTick] lb = Inl (SliceBoundsOutOfRange (- 1)))"
  using C10_negative_leakCount [of 3 100 "- 1" "[]"]
  by simp

end
